theory Spec2Isabelle
  imports Main "HOL-Library.Word" "HOL-Library.Sublist"
begin

section \<open>JavaScript strings and arrays\<close>

text \<open>
  A JavaScript string is a sequence of 16-bit code units. The elements of the arrays
  that the components keep in their React state are strings, or \<open>undefined\<close> when an
  array was read outside of its bounds.
\<close>

type_synonym jschar = "16 word"
type_synonym jsstring = "jschar list"

datatype jsval = Undefined | Str jsstring

text \<open>\<open>arr[i]\<close> for an array of strings: \<open>undefined\<close> outside of \<open>0 .. length - 1\<close>.\<close>

definition js_index :: "jsstring list \<Rightarrow> int \<Rightarrow> jsval" where
  "js_index arr i = (if 0 \<le> i \<and> i < int (length arr) then Str (arr ! nat i) else Undefined)"

text \<open>
  The code units that \<open>String.prototype.trim\<close> removes: WhiteSpace (TAB, VT, FF, SP,
  NBSP, ZWNBSP and the Unicode space separators) and LineTerminator (LF, CR, LS, PS).
\<close>

definition is_ws :: "jschar \<Rightarrow> bool" where
  "is_ws c = (c \<in> {0x09, 0x0A, 0x0B, 0x0C, 0x0D, 0x20, 0xA0, 0x1680,
                    0x2000, 0x2001, 0x2002, 0x2003, 0x2004, 0x2005, 0x2006, 0x2007,
                    0x2008, 0x2009, 0x200A, 0x2028, 0x2029, 0x202F, 0x205F, 0x3000,
                    0xFEFF})"

definition trim :: "jsstring \<Rightarrow> jsstring" where
  "trim s = rev (dropWhile is_ws (rev (dropWhile is_ws s)))"

definition LF :: jschar where
  "LF = 0x0A"

text \<open>
  \<open>s.split(sep)\<close> for a separator of one code unit: the pieces between the
  occurrences of \<open>sep\<close>; the empty string gives one empty piece. A code unit that
  is not the separator goes in front of the first piece of the rest (there always is
  one).
\<close>

fun split :: "jschar \<Rightarrow> jsstring \<Rightarrow> jsstring list" where
  "split sep [] = [[]]"
| "split sep (c # cs) =
     (if c = sep then [] # split sep cs
      else (case split sep cs of [] \<Rightarrow> [[c]] | p # ps \<Rightarrow> (c # p) # ps))"

text \<open>
  \<open>new Set(arr)\<close> keeps its elements in insertion order; adding an element that is
  already present changes nothing. \<open>[...new Set(arr)]\<close> reads them back in that order.
\<close>

definition set_add :: "jsstring list \<Rightarrow> jsstring \<Rightarrow> jsstring list" where
  "set_add s x = (if x \<in> set s then s else s @ [x])"

definition new_Set :: "jsstring list \<Rightarrow> jsstring list" where
  "new_Set arr = foldl set_add [] arr"

section \<open>Unit derivation\<close>

text \<open>
  ChatMessage:
  \<^verbatim>\<open>[...new Set(message.content.split('\n').map(p => p.trim()).filter(p => p !== ''))]\<close>
\<close>

definition uniqueParagraphs :: "jsstring \<Rightarrow> jsstring list" where
  "uniqueParagraphs content = new_Set (filter (\<lambda>p. p \<noteq> []) (map trim (split LF content)))"

text \<open>
  TypingMessage:
  \<^verbatim>\<open>content.split('\n').filter(p => p.trim() !== '')\<close>
\<close>

definition paragraphs :: "jsstring \<Rightarrow> jsstring list" where
  "paragraphs content = filter (\<lambda>p. trim p \<noteq> []) (split LF content)"

text \<open>
  The unit derivation in the words of the specification: split on line breaks, trim
  each piece, drop the pieces that are empty, and of equal entries keep the first.
\<close>

fun keep_first :: "jsstring list \<Rightarrow> jsstring list" where
  "keep_first [] = []"
| "keep_first (x # xs) = x # keep_first (filter (\<lambda>y. y \<noteq> x) xs)"

definition spec_units :: "jsstring \<Rightarrow> jsstring list" where
  "spec_units content = keep_first (filter (\<lambda>p. p \<noteq> []) (map trim (split LF content)))"

text \<open>\<open>units.join('\n')\<close>\<close>

fun join :: "jschar \<Rightarrow> jsstring list \<Rightarrow> jsstring" where
  "join sep [] = []"
| "join sep [x] = x"
| "join sep (x # y # ys) = x @ sep # join sep (y # ys)"

section \<open>Timers and React state updates\<close>

text \<open>
  A pending timer of the page. Its callback closes over the array of paragraphs and
  over the index variable of the effect run that armed it; within one effect run only
  the pending callback reads or writes that variable, so the timer carries its value.
\<close>

record timer =
  handle :: nat
  due :: nat
  captured :: "jsstring list"
  index :: int

text \<open>
  The event loop runs the pending timer that is due first; of two timers due at the
  same time the one armed first.
\<close>

fun earliest :: "timer list \<Rightarrow> timer option" where
  "earliest [] = None"
| "earliest (t # ts) =
     (case earliest ts of
        None \<Rightarrow> Some t
      | Some u \<Rightarrow> if due t \<le> due u then Some t else Some u)"

text \<open>
  \<open>setState(prev => [...prev, arr[i]])\<close> hands React an updater function that reads
  the variable \<open>i\<close> when React calls it: either inside the \<open>setState\<close> call, before
  the statement \<open>i++\<close> that follows it, or at the next render, after it.
\<close>

datatype updater_phase = AtDispatch | AtRender

definition updater_index :: "updater_phase \<Rightarrow> int \<Rightarrow> int" where
  "updater_index ph i = (case ph of AtDispatch \<Rightarrow> i | AtRender \<Rightarrow> i + 1)"

section \<open>ChatMessage\<close>

record chat_message =
  visibleParagraphs :: "jsval list"
  timers :: "timer list"
  next_handle :: nat
  clock :: nat
  cleanup :: "nat option"
  deps :: "jsstring \<times> bool"

definition setTimeout :: "jsstring list \<Rightarrow> int \<Rightarrow> nat \<Rightarrow> chat_message \<Rightarrow> chat_message" where
  "setTimeout ps i delay s =
     s\<lparr>timers := timers s @ [\<lparr>handle = next_handle s, due = clock s + delay,
                               captured = ps, index = i\<rparr>],
       next_handle := next_handle s + 1\<rparr>"

definition clearTimeout :: "nat \<Rightarrow> chat_message \<Rightarrow> chat_message" where
  "clearTimeout h s = s\<lparr>timers := filter (\<lambda>t. handle t \<noteq> h) (timers s)\<rparr>"

text \<open>
  \<^verbatim>\<open>
  const showNextParagraph = () => {
    if (currentIndex < uniqueParagraphs.length) {
      setVisibleParagraphs(prev => [...prev, uniqueParagraphs[currentIndex]]);
      currentIndex++;
      setTimeout(showNextParagraph, 800);
    }
  };
  \<close>
\<close>

definition showNextParagraph :: "updater_phase \<Rightarrow> timer \<Rightarrow> chat_message \<Rightarrow> chat_message" where
  "showNextParagraph ph t s =
     (if index t < int (length (captured t)) then
        setTimeout (captured t) (index t + 1) 800
          (s\<lparr>visibleParagraphs :=
               visibleParagraphs s @ [js_index (captured t) (updater_index ph (index t))]\<rparr>)
      else s)"

text \<open>
  The effect of ChatMessage, run after the mount and after every render in which
  \<open>message.content\<close> or \<open>isUser\<close> has changed. For a message that is not the user's
  it returns the cleanup \<open>() => clearTimeout(timer)\<close>, where \<open>timer\<close> is the handle of
  the first timeout; for a user message it returns nothing.
\<close>

definition chat_effect :: "jsstring \<Rightarrow> bool \<Rightarrow> chat_message \<Rightarrow> chat_message" where
  "chat_effect content isUser s =
     (if \<not> isUser then
        (setTimeout (uniqueParagraphs content) (- 1) 100 (s\<lparr>visibleParagraphs := []\<rparr>))
          \<lparr>cleanup := Some (next_handle s)\<rparr>
      else s\<lparr>visibleParagraphs := map Str (uniqueParagraphs content), cleanup := None\<rparr>)"

definition run_cleanup :: "chat_message \<Rightarrow> chat_message" where
  "run_cleanup s = (case cleanup s of None \<Rightarrow> s | Some h \<Rightarrow> clearTimeout h s)"

definition chat_mount :: "jsstring \<Rightarrow> bool \<Rightarrow> chat_message" where
  "chat_mount content isUser =
     chat_effect content isUser
       \<lparr>visibleParagraphs = [], timers = [], next_handle = 0, clock = 0,
        cleanup = None, deps = (content, isUser)\<rparr>"

text \<open>A render with new props: React runs the cleanup of the last effect, then the effect.\<close>

definition chat_update :: "jsstring \<Rightarrow> bool \<Rightarrow> chat_message \<Rightarrow> chat_message" where
  "chat_update content isUser s =
     (if deps s = (content, isUser) then s
      else chat_effect content isUser ((run_cleanup s)\<lparr>deps := (content, isUser)\<rparr>))"

text \<open>One tick: the timer that is due first fires and its callback runs.\<close>

definition chat_tick :: "updater_phase \<Rightarrow> chat_message \<Rightarrow> chat_message" where
  "chat_tick ph s =
     (case earliest (timers s) of
        None \<Rightarrow> s
      | Some t \<Rightarrow>
          showNextParagraph ph t
            (s\<lparr>timers := filter (\<lambda>u. handle u \<noteq> handle t) (timers s),
               clock := max (clock s) (due t)\<rparr>))"

fun chat_ticks :: "updater_phase \<Rightarrow> nat \<Rightarrow> chat_message \<Rightarrow> chat_message" where
  "chat_ticks ph 0 s = s"
| "chat_ticks ph (Suc k) s = chat_tick ph (chat_ticks ph k s)"

text \<open>The strings among the elements of a state array: the units that are revealed.\<close>

fun strs :: "jsval list \<Rightarrow> jsstring list" where
  "strs [] = []"
| "strs (Undefined # vs) = strs vs"
| "strs (Str x # vs) = x # strs vs"

text \<open>
  The elements that the ticks of one session append, in order, to the state array
  for the paragraphs \<open>ps\<close>.
\<close>

definition appended :: "updater_phase \<Rightarrow> jsstring list \<Rightarrow> jsval list" where
  "appended ph ps = (case ph of AtDispatch \<Rightarrow> Undefined # map Str ps
                              | AtRender \<Rightarrow> map Str ps @ [Undefined])"

section \<open>TypingMessage\<close>

record typing_message =
  displayedParagraphs :: "jsval list"
  isTyping :: bool
  contentRef :: jsstring
  intervals :: "timer list"
  next_id :: nat
  now :: nat
  cleanup_interval :: "nat option"
  dep :: jsstring

definition setInterval :: "jsstring list \<Rightarrow> int \<Rightarrow> nat \<Rightarrow> typing_message \<Rightarrow> typing_message" where
  "setInterval ps i delay s =
     s\<lparr>intervals := intervals s @ [\<lparr>handle = next_id s, due = now s + delay,
                                     captured = ps, index = i\<rparr>],
       next_id := next_id s + 1\<rparr>"

definition clearInterval :: "nat \<Rightarrow> typing_message \<Rightarrow> typing_message" where
  "clearInterval h s = s\<lparr>intervals := filter (\<lambda>t. handle t \<noteq> h) (intervals s)\<rparr>"

text \<open>
  The effect of TypingMessage, run after the mount and after every render in which
  \<open>content\<close> has changed:
  \<^verbatim>\<open>
  contentRef.current = content;
  setDisplayedParagraphs([]);
  setIsTyping(true);
  if (!content) return;
  const paragraphs = content.split('\n').filter(p => p.trim() !== '');
  let currentParagraphIndex = -1;
  const typingInterval = setInterval(..., 600);
  return () => clearInterval(typingInterval);
  \<close>
  A string is falsy when it is empty.
\<close>

definition typing_effect :: "jsstring \<Rightarrow> typing_message \<Rightarrow> typing_message" where
  "typing_effect content s =
     (if content = [] then
        s\<lparr>contentRef := content, displayedParagraphs := [], isTyping := True,
          cleanup_interval := None\<rparr>
      else
        (setInterval (paragraphs content) (- 1) 600
           (s\<lparr>contentRef := content, displayedParagraphs := [], isTyping := True\<rparr>))
          \<lparr>cleanup_interval := Some (next_id s)\<rparr>)"

definition typing_mount :: "jsstring \<Rightarrow> typing_message" where
  "typing_mount content =
     typing_effect content
       \<lparr>displayedParagraphs = [], isTyping = True, contentRef = content, intervals = [],
        next_id = 0, now = 0, cleanup_interval = None, dep = content\<rparr>"

definition typing_cleanup :: "typing_message \<Rightarrow> typing_message" where
  "typing_cleanup s = (case cleanup_interval s of None \<Rightarrow> s | Some h \<Rightarrow> clearInterval h s)"

definition typing_update :: "jsstring \<Rightarrow> typing_message \<Rightarrow> typing_message" where
  "typing_update content s =
     (if dep s = content then s
      else typing_effect content ((typing_cleanup s)\<lparr>dep := content\<rparr>))"

text \<open>
  The callback of the interval; an interval that is not cleared stays armed and is due
  again after its delay.
  \<^verbatim>\<open>
  if (currentParagraphIndex < paragraphs.length) {
    setDisplayedParagraphs(prev => [...prev, paragraphs[currentParagraphIndex]]);
    currentParagraphIndex++;
  } else {
    setIsTyping(false);
    clearInterval(typingInterval);
  }
  \<close>
\<close>

definition typing_callback :: "updater_phase \<Rightarrow> timer \<Rightarrow> typing_message \<Rightarrow> typing_message" where
  "typing_callback ph t s =
     (if index t < int (length (captured t)) then
        s\<lparr>displayedParagraphs :=
            displayedParagraphs s @ [js_index (captured t) (updater_index ph (index t))],
          intervals :=
            map (\<lambda>u. if handle u = handle t then u\<lparr>index := index t + 1\<rparr> else u)
              (intervals s)\<rparr>
      else clearInterval (handle t) (s\<lparr>isTyping := False\<rparr>))"

definition typing_tick :: "updater_phase \<Rightarrow> typing_message \<Rightarrow> typing_message" where
  "typing_tick ph s =
     (case earliest (intervals s) of
        None \<Rightarrow> s
      | Some t \<Rightarrow>
          typing_callback ph t
            (s\<lparr>intervals :=
                 map (\<lambda>u. if handle u = handle t then u\<lparr>due := due t + 600\<rparr> else u)
                   (intervals s),
               now := max (now s) (due t)\<rparr>))"

fun typing_ticks :: "updater_phase \<Rightarrow> nat \<Rightarrow> typing_message \<Rightarrow> typing_message" where
  "typing_ticks ph 0 s = s"
| "typing_ticks ph (Suc k) s = typing_tick ph (typing_ticks ph k s)"

section \<open>EventSearch and ChatInterface: storing the chat response\<close>

datatype msg_type = User | System

record message =
  msg_id :: nat
  msg_type :: msg_type
  content :: jsstring

text \<open>
  \<open>s.replace(/([H])\1+/g, '')\<close>: scanning from the left, a match starts at an \<open>H\<close>
  that is followed by an \<open>H\<close> and takes every \<open>H\<close> that follows; it is replaced by
  nothing and the scan goes on behind it. Other code units are copied.
\<close>

definition chr_H :: jschar where
  "chr_H = 0x48"

function replace_HH :: "jsstring \<Rightarrow> jsstring" where
  "replace_HH [] = []"
| "replace_HH [c] = [c]"
| "replace_HH (c # d # cs) =
     (if c = chr_H \<and> d = chr_H then replace_HH (dropWhile (\<lambda>x. x = chr_H) cs)
      else c # replace_HH (d # cs))"
  by pat_completeness auto
termination
  by (relation "measure length") (auto simp: length_dropWhile_le less_Suc_eq_le le_SucI)

text \<open>
  The specification of this replacement, by the positions of the string: position
  \<open>i\<close> lies in a run of two or more \<open>H\<close> when it holds an \<open>H\<close> and one of its
  neighbours does; deleting the runs keeps the other positions, in order.
\<close>

definition in_H_run :: "jsstring \<Rightarrow> nat \<Rightarrow> bool" where
  "in_H_run s i =
     (s ! i = chr_H \<and>
      ((0 < i \<and> s ! (i - 1) = chr_H) \<or> (i + 1 < length s \<and> s ! (i + 1) = chr_H)))"

definition without_H_runs :: "jsstring \<Rightarrow> jsstring" where
  "without_H_runs s = map (\<lambda>i. s ! i) (filter (\<lambda>i. \<not> in_H_run s i) [0..<length s])"

text \<open>
  The same selection read from left to right, for a string that stands behind an
  \<open>H\<close> (\<open>p\<close>) or not.
\<close>

definition in_H_run_after :: "bool \<Rightarrow> jsstring \<Rightarrow> nat \<Rightarrow> bool" where
  "in_H_run_after p s i =
     (s ! i = chr_H \<and>
      ((i = 0 \<and> p) \<or> (0 < i \<and> s ! (i - 1) = chr_H) \<or>
       (i + 1 < length s \<and> s ! (i + 1) = chr_H)))"

fun drop_H_runs :: "bool \<Rightarrow> jsstring \<Rightarrow> jsstring" where
  "drop_H_runs p [] = []"
| "drop_H_runs p (c # cs) =
     (if c = chr_H \<and> (p \<or> (cs \<noteq> [] \<and> hd cs = chr_H)) then drop_H_runs True cs
      else c # drop_H_runs (c = chr_H) cs)"

text \<open>
  What the chat request of EventSearch comes back with: \<open>fetch\<close> rejects (the network
  failed), \<open>chatResponse.json()\<close> rejects (the body is not JSON), or the body is an
  object, with its \<open>message\<close> string when it has one.
\<close>

datatype chat_reply = FetchRejected | JsonRejected | ChatData "jsstring option"

record event_search =
  messages :: "message list"
  isLoadingChat :: bool

text \<open>
  The text of the \<open>catch\<close> branch, with U+00E9 for the accented letters: "Desole, une
  erreur s'est produite lors de la generation de la reponse."
\<close>

definition chat_fallback :: jsstring where
  "chat_fallback =
     [0x44, 0xE9, 0x73, 0x6F, 0x6C, 0xE9, 0x2C, 0x20, 0x75, 0x6E, 0x65, 0x20,
      0x65, 0x72, 0x72, 0x65, 0x75, 0x72, 0x20, 0x73, 0x27, 0x65, 0x73, 0x74,
      0x20, 0x70, 0x72, 0x6F, 0x64, 0x75, 0x69, 0x74, 0x65, 0x20, 0x6C, 0x6F,
      0x72, 0x73, 0x20, 0x64, 0x65, 0x20, 0x6C, 0x61, 0x20, 0x67, 0xE9, 0x6E,
      0xE9, 0x72, 0x61, 0x74, 0x69, 0x6F, 0x6E, 0x20, 0x64, 0x65, 0x20, 0x6C,
      0x61, 0x20, 0x72, 0xE9, 0x70, 0x6F, 0x6E, 0x73, 0x65, 0x2E]"

text \<open>
  \<open>getChatResponse\<close>; \<open>date_now\<close> is the value of \<open>Date.now()\<close>. A message that is
  \<open>undefined\<close> or empty is falsy, and nothing is stored for it.
\<close>

definition getChatResponse :: "nat \<Rightarrow> chat_reply \<Rightarrow> event_search \<Rightarrow> event_search" where
  "getChatResponse date_now reply s =
     (case reply of
        ChatData m \<Rightarrow>
          (case m of
             Some msg \<Rightarrow>
               if msg \<noteq> [] then
                 s\<lparr>messages := messages s @
                      [\<lparr>msg_id = date_now, msg_type = System, content = replace_HH msg\<rparr>],
                   isLoadingChat := False\<rparr>
               else s\<lparr>isLoadingChat := False\<rparr>
           | None \<Rightarrow> s\<lparr>isLoadingChat := False\<rparr>)
      | _ \<Rightarrow>
          s\<lparr>messages := messages s @
               [\<lparr>msg_id = date_now, msg_type = System, content = chat_fallback\<rparr>],
            isLoadingChat := False\<rparr>)"

text \<open>
  MessagesContainer mounts a ChatMessage for each message; \<open>isUser\<close> is
  \<open>message.type === 'user'\<close>.
\<close>

definition ChatMessage :: "message \<Rightarrow> chat_message" where
  "ChatMessage m = chat_mount (content m) (msg_type m = User)"

text \<open>
  What ChatMessage renders inside the bubble, from its props and its state:
  \<^verbatim>\<open>
  {isUser ? (
    <div className="whitespace-pre-wrap">{message.content}</div>
  ) : (
    <div className="space-y-4">
      {visibleParagraphs.map((paragraph, index) => (<p ...>{paragraph}</p>))}
    </div>
  )}
  \<close>
  For a user message it is the content itself, and the state is not shown; for any
  other message it is one paragraph element for each element of the state array.
\<close>

datatype view = Content jsstring | Paragraphs "jsval list"

definition chat_render :: "message \<Rightarrow> chat_message \<Rightarrow> view" where
  "chat_render m s =
     (if msg_type m = User then Content (content m) else Paragraphs (visibleParagraphs s))"

text \<open>
  Ticks for which React calls the updater at a phase of its own choice each time: one
  phase for each tick, in order.
\<close>

fun chat_run :: "updater_phase list \<Rightarrow> chat_message \<Rightarrow> chat_message" where
  "chat_run [] s = s"
| "chat_run (ph # phs) s = chat_run phs (chat_tick ph s)"

fun typing_run :: "updater_phase list \<Rightarrow> typing_message \<Rightarrow> typing_message" where
  "typing_run [] s = s"
| "typing_run (ph # phs) s = typing_run phs (typing_tick ph s)"

text \<open>
  The invariant of a session over the paragraphs \<open>ps\<close>: the state array was read
  from \<open>ps\<close> at indices that never decrease, and the one timer that may be pending
  belongs to the session and its index is not behind them.
\<close>

definition in_session :: "jsstring list \<Rightarrow> jsval list \<Rightarrow> timer list \<Rightarrow> bool" where
  "in_session ps vs ts =
     (\<exists>is. vs = map (js_index ps) is \<and> sorted is \<and>
        (ts = [] \<or> (\<exists>t. ts = [t] \<and> captured t = ps \<and> (\<forall>i\<in>set is. i \<le> index t))))"

subsection \<open>ChatInterface\<close>

record ci_message =
  msg_text :: jsstring
  isUser :: bool

record chat_interface =
  ci_messages :: "ci_message list"
  ci_input :: jsstring

text \<open>
  The reply to the request of ChatInterface: a rejection, or a body with
  \<open>data.status === 'success'\<close> or not and its \<open>data.response\<close>.
\<close>

datatype ci_reply = CI_FetchRejected | CI_JsonRejected | CI_Data bool jsstring

text \<open>"Desole, une erreur est survenue."\<close>

definition ci_error_status :: jsstring where
  "ci_error_status =
     [0x44, 0xE9, 0x73, 0x6F, 0x6C, 0xE9, 0x2C, 0x20, 0x75, 0x6E, 0x65, 0x20,
      0x65, 0x72, 0x72, 0x65, 0x75, 0x72, 0x20, 0x65, 0x73, 0x74, 0x20, 0x73,
      0x75, 0x72, 0x76, 0x65, 0x6E, 0x75, 0x65, 0x2E]"

text \<open>"Desole, une erreur est survenue lors de la communication avec le serveur."\<close>

definition ci_error_catch :: jsstring where
  "ci_error_catch =
     [0x44, 0xE9, 0x73, 0x6F, 0x6C, 0xE9, 0x2C, 0x20, 0x75, 0x6E, 0x65, 0x20,
      0x65, 0x72, 0x72, 0x65, 0x75, 0x72, 0x20, 0x65, 0x73, 0x74, 0x20, 0x73,
      0x75, 0x72, 0x76, 0x65, 0x6E, 0x75, 0x65, 0x20, 0x6C, 0x6F, 0x72, 0x73,
      0x20, 0x64, 0x65, 0x20, 0x6C, 0x61, 0x20, 0x63, 0x6F, 0x6D, 0x6D, 0x75,
      0x6E, 0x69, 0x63, 0x61, 0x74, 0x69, 0x6F, 0x6E, 0x20, 0x61, 0x76, 0x65,
      0x63, 0x20, 0x6C, 0x65, 0x20, 0x73, 0x65, 0x72, 0x76, 0x65, 0x75, 0x72,
      0x2E]"

definition handleSubmit :: "ci_reply \<Rightarrow> chat_interface \<Rightarrow> chat_interface" where
  "handleSubmit reply s =
     (if trim (ci_input s) = [] then s
      else
        (let shown = ci_messages s @ [\<lparr>msg_text = ci_input s, isUser = True\<rparr>] in
         case reply of
           CI_Data ok response \<Rightarrow>
             if ok then
               s\<lparr>ci_messages := shown @ [\<lparr>msg_text = response, isUser = False\<rparr>],
                 ci_input := []\<rparr>
             else
               s\<lparr>ci_messages := shown @ [\<lparr>msg_text = ci_error_status, isUser = False\<rparr>],
                 ci_input := []\<rparr>
         | _ \<Rightarrow>
             s\<lparr>ci_messages := shown @ [\<lparr>msg_text = ci_error_catch, isUser = False\<rparr>],
               ci_input := []\<rparr>))"

text \<open>
  What ChatInterface renders for a message: the side of the bubble, and the lines
  \<open>message.text.split('\n')\<close>.
\<close>

definition ci_render :: "ci_message \<Rightarrow> bool \<times> jsstring list" where
  "ci_render m = (isUser m, split LF (msg_text m))"

section \<open>Properties of the unit derivation, of the sessions and of the replacement\<close>


lemma foldl_set_add: "distinct acc \<Longrightarrow> foldl set_add acc xs = acc @ keep_first (filter (\<lambda>y. y \<notin> set acc) xs)"
proof (induction xs arbitrary: acc)
  case Nil
  then show ?case by simp
next
  case (Cons x xs)
  show ?case
  proof (cases "x \<in> set acc")
    case True
    with Cons show ?thesis by (simp add: set_add_def)
  next
    case False
    from False Cons.prems have "distinct (acc @ [x])" by simp
    from Cons.IH[OF this] False show ?thesis by (simp add: set_add_def conj_commute)
  qed
qed

lemma new_Set_keep_first: "new_Set xs = keep_first xs"
  using foldl_set_add[of "[]" xs] by (simp add: new_Set_def)

lemma set_keep_first: "set (keep_first xs) = set xs"
  by (induction xs rule: keep_first.induct) auto

lemma distinct_keep_first: "distinct (keep_first xs)"
  by (induction xs rule: keep_first.induct) (auto simp: set_keep_first)

lemma keep_first_distinct: "distinct xs \<Longrightarrow> keep_first xs = xs"
proof (induction xs)
  case Nil
  then show ?case by simp
next
  case (Cons x xs)
  then have "filter (\<lambda>y. y \<noteq> x) xs = xs" by (auto intro: filter_True)
  with Cons show ?case by simp
qed

lemma split_nonempty: "split sep s \<noteq> []"
  by (induction s) (auto split: list.splits)

lemma split_no_sep: "p \<in> set (split sep s) \<Longrightarrow> sep \<notin> set p"
proof (induction s arbitrary: p)
  case Nil
  then show ?case by simp
next
  case (Cons c cs)
  obtain h t where ht: "split sep cs = h # t" using split_nonempty[of sep cs] by (cases "split sep cs") auto
  with Cons show ?case by (auto split: if_splits)
qed

lemma split_join: "xs \<noteq> [] \<Longrightarrow> \<forall>x\<in>set xs. sep \<notin> set x \<Longrightarrow> split sep (join sep xs) = xs"
proof (induction sep xs rule: join.induct)
  case (1 sep)
  then show ?case by simp
next
  case (2 sep x)
  then show ?case by (induction x) auto
next
  case (3 sep x y ys)
  then have IH: "split sep (join sep (y # ys)) = y # ys" by simp
  from 3(3) have "sep \<notin> set x" by simp
  then show ?case using IH by (induction x) auto
qed

lemma set_trim: "set (trim s) \<subseteq> set s"
proof -
  have "set (trim s) \<subseteq> set (dropWhile is_ws s)"
    unfolding trim_def using set_dropWhileD[of _ is_ws "rev (dropWhile is_ws s)"] by auto
  also have "\<dots> \<subseteq> set s" using set_dropWhileD[of _ is_ws s] by auto
  finally show ?thesis .
qed

lemma trim_fixed: "s \<noteq> [] \<Longrightarrow> \<not> is_ws (hd s) \<Longrightarrow> \<not> is_ws (last s) \<Longrightarrow> trim s = s"
proof -
  assume ne: "s \<noteq> []" and h: "\<not> is_ws (hd s)" and l: "\<not> is_ws (last s)"
  have 1: "dropWhile is_ws s = s" using h by (simp add: dropWhile_eq_self_iff)
  have "hd (rev s) = last s" using ne by (simp add: hd_rev)
  then have 2: "dropWhile is_ws (rev s) = rev s" using l by (simp add: dropWhile_eq_self_iff)
  show ?thesis by (simp add: trim_def 1 2)
qed

lemma trim_ends: "trim s \<noteq> [] \<Longrightarrow> \<not> is_ws (hd (trim s)) \<and> \<not> is_ws (last (trim s))"
proof -
  assume ne: "trim s \<noteq> []"
  define a where "a = dropWhile is_ws s"
  define c where "c = dropWhile is_ws (rev a)"
  have t: "trim s = rev c" by (simp add: trim_def a_def c_def)
  with ne have cne: "c \<noteq> []" by simp
  then have hc: "\<not> is_ws (hd c)" unfolding c_def by (rule hd_dropWhile)
  from cne have ane: "a \<noteq> []" by (auto simp: c_def)
  then have ha: "\<not> is_ws (hd a)" unfolding a_def by (rule hd_dropWhile)
  have "rev a = takeWhile is_ws (rev a) @ c" by (simp add: c_def)
  then have "last (rev a) = last c" using cne by (metis last_appendR)
  then have "last c = hd a" using ane by (simp add: last_rev)
  with ha hc t cne show ?thesis by (simp add: hd_rev last_rev)
qed

lemma trim_idem: "trim (trim s) = trim s"
proof (cases "trim s = []")
  case True
  have "trim [] = []" by (simp add: trim_def)
  with True show ?thesis by simp
next
  case False
  then show ?thesis using trim_ends[OF False] by (intro trim_fixed) auto
qed

lemma uniqueParagraphs_props:
  assumes "u \<in> set (uniqueParagraphs s)"
  shows "u \<noteq> []" and "trim u = u" and "LF \<notin> set u"
proof -
  from assms obtain p where p: "p \<in> set (split LF s)" and u: "u = trim p" and ne: "u \<noteq> []"
    by (auto simp: uniqueParagraphs_def new_Set_keep_first set_keep_first)
  show "u \<noteq> []" by (rule ne)
  show "trim u = u" by (simp add: u trim_idem)
  from split_no_sep[OF p] set_trim[of p] show "LF \<notin> set u" by (auto simp: u)
qed

lemma uniqueParagraphs_distinct: "distinct (uniqueParagraphs s)"
  by (simp add: uniqueParagraphs_def new_Set_keep_first distinct_keep_first)



lemma length_appended: "length (appended ph ps) = Suc (length ps)"
  by (cases ph) (simp_all add: appended_def)

lemma appended_nth:
  "k \<le> length ps \<Longrightarrow> appended ph ps ! k = js_index ps (updater_index ph (int k - 1))"
proof (cases ph)
  case AtDispatch
  assume "k \<le> length ps"
  then show ?thesis using AtDispatch
    by (cases k) (auto simp: appended_def js_index_def updater_index_def)
next
  case AtRender
  assume "k \<le> length ps"
  then show ?thesis using AtRender
    by (auto simp: appended_def js_index_def updater_index_def nth_append)
qed

lemma take_Suc_appended:
  "k \<le> length ps \<Longrightarrow>
   take (Suc k) (appended ph ps) = take k (appended ph ps) @ [js_index ps (updater_index ph (int k - 1))]"
  by (simp add: take_Suc_conv_app_nth length_appended appended_nth)

lemma strs_map_Str: "strs (map Str ps) = ps"
  by (induction ps) simp_all

lemma strs_append: "strs (xs @ ys) = strs xs @ strs ys"
  by (induction xs rule: strs.induct) simp_all

lemma strs_take_Undefined: "strs (take m [Undefined]) = []"
  by (cases m) simp_all

lemma strs_take_appended:
  "strs (take k (appended ph ps)) = take (case ph of AtDispatch \<Rightarrow> k - 1 | AtRender \<Rightarrow> k) ps"
proof (cases ph)
  case AtDispatch
  then show ?thesis
    by (cases k) (simp_all add: appended_def strs_map_Str take_map)
next
  case AtRender
  then show ?thesis
    by (simp add: appended_def strs_append strs_map_Str take_map strs_take_Undefined)
qed

text \<open>The states of one reveal session of ChatMessage.\<close>

lemma chat_tick_step:
  assumes "timers s = [t]" "captured t = ps" "index t = int k - 1" "k \<le> length ps"
    "visibleParagraphs s = take k (appended ph ps)"
  shows "\<exists>t'. timers (chat_tick ph s) = [t'] \<and> captured t' = ps \<and> index t' = int (Suc k) - 1 \<and>
     visibleParagraphs (chat_tick ph s) = take (Suc k) (appended ph ps)"
  using assms
  by (simp add: chat_tick_def showNextParagraph_def setTimeout_def take_Suc_appended)

lemma chat_tick_last:
  assumes "timers s = [t]" "captured t = ps" "index t = int k - 1" "k = Suc (length ps)"
  shows "timers (chat_tick ph s) = [] \<and> visibleParagraphs (chat_tick ph s) = visibleParagraphs s"
  using assms by (simp add: chat_tick_def showNextParagraph_def)

lemma chat_tick_idle: "timers s = [] \<Longrightarrow> chat_tick ph s = s"
  by (simp add: chat_tick_def)

lemma chat_ticks_idle: "timers s = [] \<Longrightarrow> chat_ticks ph k s = s"
  by (induction k) (simp_all add: chat_tick_idle)

lemma chat_ticks_add: "chat_ticks ph (j + k) s = chat_ticks ph j (chat_ticks ph k s)"
  by (induction j) simp_all

lemma chat_session_running:
  "k \<le> Suc (length (uniqueParagraphs c)) \<Longrightarrow>
   \<exists>t. timers (chat_ticks ph k (chat_mount c False)) = [t] \<and>
       captured t = uniqueParagraphs c \<and> index t = int k - 1 \<and>
       visibleParagraphs (chat_ticks ph k (chat_mount c False))
         = take k (appended ph (uniqueParagraphs c))"
proof (induction k)
  case 0
  then show ?case by (simp add: chat_mount_def chat_effect_def setTimeout_def)
next
  case (Suc k)
  then obtain t where t: "timers (chat_ticks ph k (chat_mount c False)) = [t]"
    "captured t = uniqueParagraphs c" "index t = int k - 1"
    "visibleParagraphs (chat_ticks ph k (chat_mount c False)) = take k (appended ph (uniqueParagraphs c))"
    by auto
  from Suc.prems have "k \<le> length (uniqueParagraphs c)" by simp
  from chat_tick_step[OF t(1,2,3) this t(4)] show ?case by simp
qed

lemma chat_session_done:
  "Suc (length (uniqueParagraphs c)) < k \<Longrightarrow>
   timers (chat_ticks ph k (chat_mount c False)) = [] \<and>
   visibleParagraphs (chat_ticks ph k (chat_mount c False)) = appended ph (uniqueParagraphs c)"
proof -
  let ?n = "Suc (length (uniqueParagraphs c))"
  let ?s = "chat_ticks ph ?n (chat_mount c False)"
  assume "?n < k"
  then obtain j where k: "k = j + Suc ?n" by (metis less_iff_Suc_add add.commute add_Suc_right)
  obtain t where t: "timers ?s = [t]" "captured t = uniqueParagraphs c" "index t = int ?n - 1"
    "visibleParagraphs ?s = take ?n (appended ph (uniqueParagraphs c))"
    using chat_session_running[of ?n c ph] by auto
  from chat_tick_last[OF t(1,2,3) refl, of ph] t(4)
  have last: "timers (chat_ticks ph (Suc ?n) (chat_mount c False)) = []"
    "visibleParagraphs (chat_ticks ph (Suc ?n) (chat_mount c False)) = appended ph (uniqueParagraphs c)"
    by (simp_all add: length_appended)
  have "chat_ticks ph k (chat_mount c False) = chat_ticks ph (Suc ?n) (chat_mount c False)"
    unfolding k chat_ticks_add using last(1) by (rule chat_ticks_idle)
  with last show ?thesis by simp
qed

lemma chat_session_visible:
  "visibleParagraphs (chat_ticks ph k (chat_mount c False)) = take k (appended ph (uniqueParagraphs c))"
proof (cases "k \<le> Suc (length (uniqueParagraphs c))")
  case True
  from chat_session_running[OF this] show ?thesis by auto
next
  case False
  then have "Suc (length (uniqueParagraphs c)) < k" by simp
  from chat_session_done[OF this] this show ?thesis by (simp add: length_appended)
qed


text \<open>The states of one reveal session of TypingMessage.\<close>

lemma typing_tick_step:
  assumes "intervals s = [t]" "captured t = ps" "index t = int k - 1" "k \<le> length ps"
    "displayedParagraphs s = take k (appended ph ps)" "isTyping s"
  shows "\<exists>t'. intervals (typing_tick ph s) = [t'] \<and> captured t' = ps \<and>
     index t' = int (Suc k) - 1 \<and>
     displayedParagraphs (typing_tick ph s) = take (Suc k) (appended ph ps) \<and>
     isTyping (typing_tick ph s)"
  using assms
  by (simp add: typing_tick_def typing_callback_def take_Suc_appended)

lemma typing_tick_last:
  assumes "intervals s = [t]" "captured t = ps" "index t = int k - 1" "k = Suc (length ps)"
  shows "intervals (typing_tick ph s) = [] \<and>
     displayedParagraphs (typing_tick ph s) = displayedParagraphs s \<and>
     \<not> isTyping (typing_tick ph s)"
  using assms by (simp add: typing_tick_def typing_callback_def clearInterval_def)

lemma typing_tick_idle: "intervals s = [] \<Longrightarrow> typing_tick ph s = s"
  by (simp add: typing_tick_def)

lemma typing_ticks_idle: "intervals s = [] \<Longrightarrow> typing_ticks ph k s = s"
  by (induction k) (simp_all add: typing_tick_idle)

lemma typing_ticks_add: "typing_ticks ph (j + k) s = typing_ticks ph j (typing_ticks ph k s)"
  by (induction j) simp_all

lemma typing_session_running:
  "c \<noteq> [] \<Longrightarrow> k \<le> Suc (length (paragraphs c)) \<Longrightarrow>
   \<exists>t. intervals (typing_ticks ph k (typing_mount c)) = [t] \<and>
       captured t = paragraphs c \<and> index t = int k - 1 \<and>
       displayedParagraphs (typing_ticks ph k (typing_mount c))
         = take k (appended ph (paragraphs c)) \<and>
       isTyping (typing_ticks ph k (typing_mount c))"
proof (induction k)
  case 0
  then show ?case by (simp add: typing_mount_def typing_effect_def setInterval_def)
next
  case (Suc k)
  then obtain t where t: "intervals (typing_ticks ph k (typing_mount c)) = [t]"
    "captured t = paragraphs c" "index t = int k - 1"
    "displayedParagraphs (typing_ticks ph k (typing_mount c)) = take k (appended ph (paragraphs c))"
    "isTyping (typing_ticks ph k (typing_mount c))"
    by auto
  from Suc.prems have "k \<le> length (paragraphs c)" by simp
  from typing_tick_step[OF t(1,2,3) this t(4,5)] show ?case by simp
qed

lemma typing_session_done:
  "c \<noteq> [] \<Longrightarrow> Suc (length (paragraphs c)) < k \<Longrightarrow>
   intervals (typing_ticks ph k (typing_mount c)) = [] \<and>
   displayedParagraphs (typing_ticks ph k (typing_mount c)) = appended ph (paragraphs c) \<and>
   \<not> isTyping (typing_ticks ph k (typing_mount c))"
proof -
  let ?n = "Suc (length (paragraphs c))"
  let ?s = "typing_ticks ph ?n (typing_mount c)"
  assume c: "c \<noteq> []" and "?n < k"
  then obtain j where k: "k = j + Suc ?n" by (metis less_iff_Suc_add add.commute add_Suc_right)
  obtain t where t: "intervals ?s = [t]" "captured t = paragraphs c" "index t = int ?n - 1"
    "displayedParagraphs ?s = take ?n (appended ph (paragraphs c))"
    using typing_session_running[OF c, of ?n ph] by auto
  from typing_tick_last[OF t(1,2,3) refl, of ph] t(4)
  have last: "intervals (typing_ticks ph (Suc ?n) (typing_mount c)) = []"
    "displayedParagraphs (typing_ticks ph (Suc ?n) (typing_mount c)) = appended ph (paragraphs c)"
    "\<not> isTyping (typing_ticks ph (Suc ?n) (typing_mount c))"
    by (simp_all add: length_appended)
  have "typing_ticks ph k (typing_mount c) = typing_ticks ph (Suc ?n) (typing_mount c)"
    unfolding k typing_ticks_add using last(1) by (rule typing_ticks_idle)
  with last show ?thesis by simp
qed

lemma typing_session_displayed:
  "c \<noteq> [] \<Longrightarrow>
   displayedParagraphs (typing_ticks ph k (typing_mount c)) = take k (appended ph (paragraphs c))"
proof (cases "k \<le> Suc (length (paragraphs c))")
  case True
  assume "c \<noteq> []"
  from typing_session_running[OF this True] show ?thesis by auto
next
  case False
  assume c: "c \<noteq> []"
  from False have "Suc (length (paragraphs c)) < k" by simp
  from typing_session_done[OF c this] this show ?thesis by (simp add: length_appended)
qed

lemma typing_session_empty:
  "typing_ticks ph k (typing_mount []) = typing_mount [] \<and>
   intervals (typing_mount []) = [] \<and> displayedParagraphs (typing_mount []) = [] \<and>
   isTyping (typing_mount [])"
proof -
  have i: "intervals (typing_mount []) = []" by (simp add: typing_mount_def typing_effect_def)
  from typing_ticks_idle[OF i] i show ?thesis by (simp add: typing_mount_def typing_effect_def)
qed




lemma in_H_run_after_False: "in_H_run_after False s i = in_H_run s i"
  by (simp add: in_H_run_after_def in_H_run_def)

lemma in_H_run_after_Suc:
  "i < length cs \<Longrightarrow> in_H_run_after p (c # cs) (Suc i) = in_H_run_after (c = chr_H) cs i"
  by (cases i) (auto simp: in_H_run_after_def)

lemma in_H_run_after_0:
  "in_H_run_after p (c # cs) 0 = (c = chr_H \<and> (p \<or> (cs \<noteq> [] \<and> hd cs = chr_H)))"
  by (cases cs) (auto simp: in_H_run_after_def)

lemma select_drop_H_runs:
  "map (\<lambda>i. s ! i) (filter (\<lambda>i. \<not> in_H_run_after p s i) [0..<length s]) = drop_H_runs p s"
proof (induction s arbitrary: p)
  case Nil
  then show ?case by simp
next
  case (Cons c cs)
  have upt: "[0..<length (c # cs)] = 0 # map Suc [0..<length cs]"
    by (simp add: upt_conv_Cons map_Suc_upt del: upt_Suc)
  have tl: "map (\<lambda>i. (c # cs) ! i)
              (filter (\<lambda>i. \<not> in_H_run_after p (c # cs) i) (map Suc [0..<length cs]))
            = drop_H_runs (c = chr_H) cs"
  proof -
    have "filter (\<lambda>i. \<not> in_H_run_after p (c # cs) i) (map Suc [0..<length cs])
          = map Suc (filter (\<lambda>i. \<not> in_H_run_after (c = chr_H) cs i) [0..<length cs])"
      unfolding filter_map comp_def
      by (rule arg_cong[where f = "map Suc"], rule filter_cong) (simp_all add: in_H_run_after_Suc)
    then show ?thesis using Cons.IH[of "c = chr_H"] by (simp add: comp_def)
  qed
  show ?case
  proof (cases "in_H_run_after p (c # cs) 0")
    case True
    then have c: "c = chr_H" "p \<or> (cs \<noteq> [] \<and> hd cs = chr_H)"
      by (simp_all add: in_H_run_after_0)
    have "map (\<lambda>i. (c # cs) ! i)
            (filter (\<lambda>i. \<not> in_H_run_after p (c # cs) i) [0..<length (c # cs)])
          = drop_H_runs (c = chr_H) cs"
      unfolding upt using True tl by (simp only: filter.simps if_True if_False simp_thms)
    also have "\<dots> = drop_H_runs p (c # cs)" using c by auto
    finally show ?thesis .
  next
    case False
    then have c: "\<not> (c = chr_H \<and> (p \<or> (cs \<noteq> [] \<and> hd cs = chr_H)))"
      by (simp add: in_H_run_after_0)
    have "map (\<lambda>i. (c # cs) ! i)
            (filter (\<lambda>i. \<not> in_H_run_after p (c # cs) i) [0..<length (c # cs)])
          = c # drop_H_runs (c = chr_H) cs"
      unfolding upt using False tl
      by (simp only: filter.simps if_True if_False simp_thms list.map nth_Cons_0)
    also have "\<dots> = drop_H_runs p (c # cs)" using c by auto
    finally show ?thesis .
  qed
qed

lemma without_H_runs_drop: "without_H_runs s = drop_H_runs False s"
  using select_drop_H_runs[of s False] by (simp add: without_H_runs_def in_H_run_after_False)

lemma drop_H_runs_True: "drop_H_runs True cs = drop_H_runs False (dropWhile (\<lambda>x. x = chr_H) cs)"
  by (induction cs) auto

lemma replace_HH_drop: "replace_HH s = drop_H_runs False s"
proof (induction s rule: replace_HH.induct)
  case 1
  then show ?case by simp
next
  case (2 c)
  then show ?case by simp
next
  case (3 c d cs)
  show ?case
  proof (cases "c = chr_H \<and> d = chr_H")
    case True
    have "replace_HH (c # d # cs) = replace_HH (dropWhile (\<lambda>x. x = chr_H) cs)"
      using True by simp
    also have "\<dots> = drop_H_runs False (dropWhile (\<lambda>x. x = chr_H) cs)"
      by (rule 3(1)[OF True])
    also have "\<dots> = drop_H_runs True cs" by (simp only: drop_H_runs_True)
    also have "\<dots> = drop_H_runs False (c # d # cs)" using True by simp
    finally show ?thesis .
  next
    case False
    have "replace_HH (c # d # cs) = c # replace_HH (d # cs)" using False by auto
    also have "replace_HH (d # cs) = drop_H_runs False (d # cs)" by (rule 3(2)[OF False])
    also have "c # drop_H_runs False (d # cs) = drop_H_runs False (c # d # cs)"
      using False by auto
    finally show ?thesis .
  qed
qed

lemma replace_HH_spec: "replace_HH s = without_H_runs s"
  by (simp add: replace_HH_drop without_H_runs_drop)

lemma without_H_runs_id: "(\<forall>i<length s. \<not> in_H_run s i) \<Longrightarrow> without_H_runs s = s"
proof -
  assume a: "\<forall>i<length s. \<not> in_H_run s i"
  then have "filter (\<lambda>i. \<not> in_H_run s i) [0..<length s] = [0..<length s]"
    by (intro filter_True) simp
  then show ?thesis by (simp add: without_H_runs_def map_nth)
qed


lemma split_subset: "p \<in> set (split sep s) \<Longrightarrow> set p \<subseteq> set s"
proof (induction s arbitrary: p)
  case Nil
  then show ?case by simp
next
  case (Cons c cs)
  obtain h t where ht: "split sep cs = h # t"
    using split_nonempty[of sep cs] by (cases "split sep cs") auto
  with Cons show ?case by (fastforce split: if_splits)
qed

lemma trim_ws: "\<forall>x\<in>set p. is_ws x \<Longrightarrow> trim p = []"
proof -
  assume "\<forall>x\<in>set p. is_ws x"
  then have d: "dropWhile is_ws p = []" using dropWhile_eq_Nil_conv by blast
  show ?thesis unfolding trim_def d by simp
qed

lemmas unit_defs = uniqueParagraphs_def paragraphs_def new_Set_def set_add_def trim_def
  is_ws_def LF_def

lemmas run_defs = eval_nat_numeral chat_mount_def chat_effect_def chat_update_def
  run_cleanup_def clearTimeout_def setTimeout_def chat_tick_def showNextParagraph_def
  js_index_def updater_index_def typing_mount_def typing_effect_def typing_update_def
  typing_cleanup_def clearInterval_def setInterval_def typing_tick_def typing_callback_def

lemma ws_only_no_units:
  assumes "\<forall>x\<in>set c. is_ws x"
  shows "uniqueParagraphs c = []" and "paragraphs c = []"
proof -
  have t: "trim p = []" if "p \<in> set (split LF c)" for p
    using split_subset[OF that] assms by (intro trim_ws) auto
  then have "filter (\<lambda>p. p \<noteq> []) (map trim (split LF c)) = []"
    by (auto simp: filter_empty_conv)
  then show "uniqueParagraphs c = []" by (simp add: uniqueParagraphs_def new_Set_def)
  from t show "paragraphs c = []" by (auto simp: paragraphs_def filter_empty_conv)
qed

lemma units_A: "uniqueParagraphs [0x41] = [[0x41]]" "paragraphs [0x41] = [[0x41]]"
  by (simp_all add: uniqueParagraphs_def paragraphs_def new_Set_def set_add_def trim_def is_ws_def LF_def)

lemma split_without_sep: "sep \<notin> set s \<Longrightarrow> split sep s = [s]"
  by (induction s) auto

lemma one_line_unit:
  assumes "s \<noteq> []" "\<not> is_ws (hd s)" "\<not> is_ws (last s)" "LF \<notin> set s"
  shows "uniqueParagraphs s = [s]"
  using assms
  by (simp add: uniqueParagraphs_def split_without_sep trim_fixed new_Set_def set_add_def)

lemma fallback_unit: "uniqueParagraphs chat_fallback = [chat_fallback]"
proof (rule one_line_unit)
  show "chat_fallback \<noteq> []" by (simp add: chat_fallback_def)
  show "\<not> is_ws (hd chat_fallback)" by (simp add: chat_fallback_def is_ws_def)
  show "\<not> is_ws (last chat_fallback)" by (simp add: chat_fallback_def is_ws_def)
  show "LF \<notin> set chat_fallback" by (simp add: chat_fallback_def LF_def)
qed



lemma chat_tick_appends:
  "visibleParagraphs (chat_tick ph s) = visibleParagraphs s \<or>
   (\<exists>v. visibleParagraphs (chat_tick ph s) = visibleParagraphs s @ [v])"
  by (simp add: chat_tick_def showNextParagraph_def setTimeout_def split: option.splits)

lemma updater_index_ge: "i \<le> updater_index ph i" "updater_index ph i \<le> i + 1"
  by (cases ph; simp add: updater_index_def)+

lemma in_session_chat_tick:
  assumes "in_session ps (visibleParagraphs s) (timers s)"
  shows "in_session ps (visibleParagraphs (chat_tick ph s)) (timers (chat_tick ph s))"
proof -
  from assms obtain ixs where ixs: "visibleParagraphs s = map (js_index ps) ixs" "sorted ixs"
    and ts: "timers s = [] \<or> (\<exists>t. timers s = [t] \<and> captured t = ps \<and> (\<forall>i\<in>set ixs. i \<le> index t))"
    unfolding in_session_def by blast
  from ts show ?thesis
  proof
    assume "timers s = []"
    then have "chat_tick ph s = s" by (rule chat_tick_idle)
    with assms show ?thesis by simp
  next
    assume "\<exists>t. timers s = [t] \<and> captured t = ps \<and> (\<forall>i\<in>set ixs. i \<le> index t)"
    then obtain t where t: "timers s = [t]" "captured t = ps" "\<forall>i\<in>set ixs. i \<le> index t"
      by blast
    show ?thesis
    proof (cases "index t < int (length ps)")
      case False
      with t ixs have "timers (chat_tick ph s) = []"
        "visibleParagraphs (chat_tick ph s) = map (js_index ps) ixs"
        by (simp_all add: chat_tick_def showNextParagraph_def)
      with ixs(2) show ?thesis unfolding in_session_def by blast
    next
      case True
      let ?e = "updater_index ph (index t)"
      let ?t' = "\<lparr>handle = next_handle s, due = max (clock s) (due t) + 800,
                  captured = ps, index = index t + 1\<rparr>"
      from True t ixs have v: "visibleParagraphs (chat_tick ph s) = map (js_index ps) (ixs @ [?e])"
        and tm: "timers (chat_tick ph s) = [?t']"
        by (simp_all add: chat_tick_def showNextParagraph_def setTimeout_def)
      have "sorted (ixs @ [?e])"
        using ixs(2) t(3) updater_index_ge(1)[of "index t" ph] by (fastforce simp: sorted_append)
      moreover have "\<forall>i\<in>set (ixs @ [?e]). i \<le> index ?t'"
        using t(3) updater_index_ge(2)[of ph "index t"] by fastforce
      ultimately show ?thesis unfolding in_session_def using v tm
        by (intro exI[of _ "ixs @ [?e]"]) simp
    qed
  qed
qed

lemma in_session_typing_tick:
  assumes "in_session ps (displayedParagraphs s) (intervals s)"
  shows "in_session ps (displayedParagraphs (typing_tick ph s)) (intervals (typing_tick ph s))"
proof -
  from assms obtain ixs where ixs: "displayedParagraphs s = map (js_index ps) ixs" "sorted ixs"
    and ts: "intervals s = [] \<or> (\<exists>t. intervals s = [t] \<and> captured t = ps \<and> (\<forall>i\<in>set ixs. i \<le> index t))"
    unfolding in_session_def by blast
  from ts show ?thesis
  proof
    assume "intervals s = []"
    then have "typing_tick ph s = s" by (rule typing_tick_idle)
    with assms show ?thesis by simp
  next
    assume "\<exists>t. intervals s = [t] \<and> captured t = ps \<and> (\<forall>i\<in>set ixs. i \<le> index t)"
    then obtain t where t: "intervals s = [t]" "captured t = ps" "\<forall>i\<in>set ixs. i \<le> index t"
      by blast
    show ?thesis
    proof (cases "index t < int (length ps)")
      case False
      with t ixs have "intervals (typing_tick ph s) = []"
        "displayedParagraphs (typing_tick ph s) = map (js_index ps) ixs"
        by (simp_all add: typing_tick_def typing_callback_def clearInterval_def)
      with ixs(2) show ?thesis unfolding in_session_def by blast
    next
      case True
      let ?e = "updater_index ph (index t)"
      let ?t' = "t\<lparr>due := due t + 600, index := index t + 1\<rparr>"
      from True t ixs have v: "displayedParagraphs (typing_tick ph s) = map (js_index ps) (ixs @ [?e])"
        and tm: "intervals (typing_tick ph s) = [?t']"
        by (simp_all add: typing_tick_def typing_callback_def)
      have "sorted (ixs @ [?e])"
        using ixs(2) t(3) updater_index_ge(1)[of "index t" ph] by (fastforce simp: sorted_append)
      moreover have "\<forall>i\<in>set (ixs @ [?e]). i \<le> index ?t'"
        using t(3) updater_index_ge(2)[of ph "index t"] by fastforce
      moreover have "captured ?t' = ps" using t(2) by simp
      ultimately show ?thesis unfolding in_session_def using v tm
        by (intro exI[of _ "ixs @ [?e]"]) simp
    qed
  qed
qed

lemma in_session_chat_run:
  "in_session ps (visibleParagraphs s) (timers s) \<Longrightarrow>
   in_session ps (visibleParagraphs (chat_run phs s)) (timers (chat_run phs s))"
  by (induction phs arbitrary: s) (simp_all add: in_session_chat_tick)

lemma in_session_typing_run:
  "in_session ps (displayedParagraphs s) (intervals s) \<Longrightarrow>
   in_session ps (displayedParagraphs (typing_run phs s)) (intervals (typing_run phs s))"
  by (induction phs arbitrary: s) (simp_all add: in_session_typing_tick)

lemma in_session_chat_mount:
  "in_session (uniqueParagraphs c) (visibleParagraphs (chat_mount c False)) (timers (chat_mount c False))"
  unfolding in_session_def
  by (intro exI[of _ "[]"]) (simp add: chat_mount_def chat_effect_def setTimeout_def)

lemma in_session_typing_mount:
  "in_session (paragraphs c) (displayedParagraphs (typing_mount c)) (intervals (typing_mount c))"
  unfolding in_session_def
  by (intro exI[of _ "[]"]) (simp add: typing_mount_def typing_effect_def setInterval_def)

lemma strs_js_index:
  "strs (map (js_index ps) ixs)
     = map (\<lambda>j. ps ! j) (map nat (filter (\<lambda>i. 0 \<le> i \<and> i < int (length ps)) ixs))"
  by (induction ixs) (simp_all add: js_index_def)

lemma sorted_map_nat: "sorted ixs \<Longrightarrow> sorted (map nat ixs)"
  by (induction ixs) auto

lemma in_session_strs:
  assumes "in_session ps vs ts"
  shows "\<exists>js. strs vs = map (\<lambda>j. ps ! j) js \<and> sorted js \<and> (\<forall>j\<in>set js. j < length ps)"
proof -
  from assms obtain ixs where ixs: "vs = map (js_index ps) ixs" "sorted ixs"
    unfolding in_session_def by blast
  let ?js = "map nat (filter (\<lambda>i. 0 \<le> i \<and> i < int (length ps)) ixs)"
  have "strs vs = map (\<lambda>j. ps ! j) ?js" by (simp only: ixs(1) strs_js_index)
  moreover have "sorted ?js" using ixs(2) by (intro sorted_map_nat sorted_wrt_filter)
  moreover have "\<forall>j\<in>set ?js. j < length ps" by auto
  ultimately show ?thesis by blast
qed

lemma chat_run_idle: "timers s = [] \<Longrightarrow> chat_run phs s = s"
  by (induction phs) (simp_all add: chat_tick_idle)

lemma system_message_mount:
  "msg_type m \<noteq> User \<Longrightarrow>
   visibleParagraphs (ChatMessage m) = [] \<and>
   timers (ChatMessage m)
     = [\<lparr>handle = 0, due = 100, captured = uniqueParagraphs (content m), index = - 1\<rparr>]"
  by (simp add: ChatMessage_def chat_mount_def chat_effect_def setTimeout_def)

lemma user_message_mount:
  "msg_type m = User \<Longrightarrow>
   visibleParagraphs (ChatMessage m) = map Str (uniqueParagraphs (content m)) \<and>
   timers (ChatMessage m) = []"
  by (simp add: ChatMessage_def chat_mount_def chat_effect_def)

section \<open>The claims\<close>

text \<open>
  C1, at the content "A" of a message that is not the user's (one unit). When React
  calls the updater inside \<open>setState\<close>, the first tick of ChatMessage and of
  TypingMessage appends \<open>undefined\<close>, not the unit. When React calls it at the next
  render, the first tick appends the unit, a timer is still armed, and the second tick
  appends \<open>undefined\<close> behind it. TypingMessage is still typing after two ticks and
  stops at the third.
\<close>

theorem first_tick_on_A:
  "visibleParagraphs (chat_ticks AtDispatch 1 (chat_mount [0x41] False)) = [Undefined] \<and>
   visibleParagraphs (chat_ticks AtRender 1 (chat_mount [0x41] False)) = [Str [0x41]] \<and>
   timers (chat_ticks AtRender 1 (chat_mount [0x41] False)) \<noteq> [] \<and>
   visibleParagraphs (chat_ticks AtRender 2 (chat_mount [0x41] False)) = [Str [0x41], Undefined] \<and>
   displayedParagraphs (typing_ticks AtDispatch 1 (typing_mount [0x41])) = [Undefined] \<and>
   displayedParagraphs (typing_ticks AtRender 2 (typing_mount [0x41])) = [Str [0x41], Undefined] \<and>
   isTyping (typing_ticks AtDispatch 1 (typing_mount [0x41])) \<and>
   isTyping (typing_ticks AtDispatch 2 (typing_mount [0x41])) \<and>
   \<not> isTyping (typing_ticks AtDispatch 3 (typing_mount [0x41]))"
  by (simp add: units_A run_defs)

text \<open>
  C2, as amended: for every content, ChatMessage derives the units of the
  specification (split at line feeds, trim, drop the empty pieces, keep the first of
  equal entries); TypingMessage keeps the pieces that are not empty after trimming as
  they are, neither trimmed nor deduplicated, and the units are what trimming and
  deduplicating them gives.
\<close>

theorem unit_derivation:
  "uniqueParagraphs s = spec_units s \<and>
   paragraphs s = filter (\<lambda>p. trim p \<noteq> []) (split LF s) \<and>
   spec_units s = keep_first (map trim (paragraphs s))"
  by (simp add: uniqueParagraphs_def spec_units_def paragraphs_def new_Set_keep_first
      filter_map comp_def)

text \<open>
  C2, as stated, fails for TypingMessage: for the content "A", line feed, " A" it keeps
  the two paragraphs "A" and " A", and the specification has the one unit "A".
\<close>

theorem typing_derivation_counterexample:
  "paragraphs [0x41, 0x0A, 0x20, 0x41] \<noteq> spec_units [0x41, 0x0A, 0x20, 0x41]"
  by (simp add: paragraphs_def spec_units_def trim_def is_ws_def LF_def)

text \<open>
  C3, at the contents "X", line feed, "Y" and then "Z": ChatMessage is mounted, its
  first tick fires, the content changes to "Z", and two more ticks fire. The cleanup
  clears the first timeout only, which has fired; the timeout that the first tick armed
  still fires and appends a unit of the old content ("X" or "Y") to the state that was
  reset for "Z". TypingMessage clears its interval, and only "Z" is displayed.
\<close>

theorem stale_tick_after_restart:
  "uniqueParagraphs [0x5A] = [[0x5A]] \<and>
   visibleParagraphs (chat_ticks AtDispatch 2 (chat_update [0x5A] False
       (chat_ticks AtDispatch 1 (chat_mount [0x58, 0x0A, 0x59] False))))
     = [Undefined, Str [0x58]] \<and>
   visibleParagraphs (chat_ticks AtRender 2 (chat_update [0x5A] False
       (chat_ticks AtRender 1 (chat_mount [0x58, 0x0A, 0x59] False))))
     = [Str [0x5A], Str [0x59]] \<and>
   displayedParagraphs (typing_ticks AtRender 4 (typing_update [0x5A]
       (typing_ticks AtRender 1 (typing_mount [0x58, 0x0A, 0x59]))))
     = [Str [0x5A], Undefined]"
proof -
  have u: "uniqueParagraphs [0x5A] = [[0x5A]]" "uniqueParagraphs [0x58, 0x0A, 0x59] = [[0x58], [0x59]]"
    "paragraphs [0x5A] = [[0x5A]]" "paragraphs [0x58, 0x0A, 0x59] = [[0x58], [0x59]]"
    by (simp_all add: uniqueParagraphs_def paragraphs_def new_Set_def set_add_def trim_def is_ws_def LF_def)
  show ?thesis
    by (simp add: u run_defs)
qed




text \<open>
  C5, as amended: for a content of whitespace and line breaks only (the empty content
  too), there are no units, nothing is revealed after the start, and no tick ever
  reveals a unit, whatever phase React takes at each tick; the session is not terminal
  at the start: ChatMessage has a timeout armed and TypingMessage is typing.
\<close>

theorem whitespace_only_session:
  assumes "\<forall>x\<in>set c. is_ws x"
  shows "uniqueParagraphs c = [] \<and> paragraphs c = [] \<and>
    visibleParagraphs (chat_mount c False) = [] \<and>
    displayedParagraphs (typing_mount c) = [] \<and>
    timers (chat_mount c False) \<noteq> [] \<and>
    isTyping (typing_mount c) \<and>
    strs (visibleParagraphs (chat_run phs (chat_mount c False))) = [] \<and>
    strs (displayedParagraphs (typing_run phs (typing_mount c))) = []"
proof -
  note u = ws_only_no_units[OF assms]
  have a: "visibleParagraphs (chat_mount c False) = []" "timers (chat_mount c False) \<noteq> []"
    by (simp_all add: chat_mount_def chat_effect_def setTimeout_def)
  have b: "displayedParagraphs (typing_mount c) = []" "isTyping (typing_mount c)"
    by (simp_all add: typing_mount_def typing_effect_def setInterval_def)
  have s1: "strs (visibleParagraphs (chat_run phs (chat_mount c False))) = []"
    using in_session_strs[OF in_session_chat_run[OF in_session_chat_mount[of c], of phs]]
    by (auto simp: u)
  have s2: "strs (displayedParagraphs (typing_run phs (typing_mount c))) = []"
    using in_session_strs[OF in_session_typing_run[OF in_session_typing_mount[of c], of phs]]
    by (auto simp: u)
  from u a b s1 s2 show ?thesis by blast
qed

text \<open>
  C5, the amended claim at the content space, line feed, tab.
\<close>

theorem whitespace_only_session_witness:
  "is_ws 0x20 \<and> is_ws 0x0A \<and> is_ws 0x09 \<and>
   uniqueParagraphs [0x20, 0x0A, 0x09] = [] \<and>
   isTyping (typing_mount [0x20, 0x0A, 0x09]) \<and>
   strs (visibleParagraphs (chat_run [AtRender, AtDispatch] (chat_mount [0x20, 0x0A, 0x09] False))) = [] \<and>
   strs (displayedParagraphs (typing_run [AtDispatch] (typing_mount [0x20, 0x0A, 0x09]))) = []"
proof -
  have h: "\<forall>x\<in>set [0x20, 0x0A, 0x09]. is_ws x" by (simp add: is_ws_def)
  from whitespace_only_session[OF h, of "[AtRender, AtDispatch]"]
       whitespace_only_session[OF h, of "[AtDispatch]"] h
  show ?thesis by simp
qed

text \<open>
  C5, as stated, fails: for the content " " (and for the empty content) TypingMessage
  is typing after the start, and ChatMessage has a timeout armed.
\<close>

theorem typing_active_at_outset:
  "is_ws 0x20 \<and> isTyping (typing_mount [0x20]) \<and>
   intervals (typing_mount [0x20]) \<noteq> [] \<and> isTyping (typing_mount []) \<and>
   timers (chat_mount [0x20] False) \<noteq> []"
  by (simp add: is_ws_def typing_mount_def typing_effect_def setInterval_def chat_mount_def
      chat_effect_def setTimeout_def)

text \<open>
  C6, the example "A", "A", "B", "", "C" of the specification, line by line, in
  ChatMessage: the units are "A", "B", "C". When React calls the updater inside
  \<open>setState\<close>, the state after one tick is \<open>[undefined]\<close>, and the fourth tick
  reveals "C". When React calls it at the next render, the first three ticks reveal
  "A", "B", "C", a timeout is still armed after the third, and the fourth tick
  appends \<open>undefined\<close>. In both cases the fifth tick changes nothing.
\<close>

theorem example_run:
  "uniqueParagraphs [0x41, 0x0A, 0x41, 0x0A, 0x42, 0x0A, 0x0A, 0x43] = [[0x41], [0x42], [0x43]] \<and>
   map (\<lambda>k. visibleParagraphs (chat_ticks AtDispatch k
          (chat_mount [0x41, 0x0A, 0x41, 0x0A, 0x42, 0x0A, 0x0A, 0x43] False))) [1, 2, 3, 4, 5]
     = [[Undefined], [Undefined, Str [0x41]], [Undefined, Str [0x41], Str [0x42]],
        [Undefined, Str [0x41], Str [0x42], Str [0x43]],
        [Undefined, Str [0x41], Str [0x42], Str [0x43]]] \<and>
   map (\<lambda>k. visibleParagraphs (chat_ticks AtRender k
          (chat_mount [0x41, 0x0A, 0x41, 0x0A, 0x42, 0x0A, 0x0A, 0x43] False))) [1, 2, 3, 4, 5]
     = [[Str [0x41]], [Str [0x41], Str [0x42]], [Str [0x41], Str [0x42], Str [0x43]],
        [Str [0x41], Str [0x42], Str [0x43], Undefined],
        [Str [0x41], Str [0x42], Str [0x43], Undefined]] \<and>
   timers (chat_ticks AtRender 3
          (chat_mount [0x41, 0x0A, 0x41, 0x0A, 0x42, 0x0A, 0x0A, 0x43] False)) \<noteq> []"
proof -
  have u: "uniqueParagraphs [0x41, 0x0A, 0x41, 0x0A, 0x42, 0x0A, 0x0A, 0x43] = [[0x41], [0x42], [0x43]]"
    by (simp add: uniqueParagraphs_def new_Set_def set_add_def trim_def is_ws_def LF_def)
  show ?thesis
    by (simp add: u run_defs)
qed

text \<open>
  C7: the unit derivation of ChatMessage is idempotent: deriving the units of the
  units of a content, joined by line feeds, gives the same units.
\<close>

theorem unit_derivation_idempotent:
  "uniqueParagraphs (join LF (uniqueParagraphs s)) = uniqueParagraphs s"
proof (cases "uniqueParagraphs s = []")
  case True
  then show ?thesis by (simp add: uniqueParagraphs_def new_Set_def trim_def)
next
  case False
  let ?us = "uniqueParagraphs s"
  have "split LF (join LF ?us) = ?us"
    using False uniqueParagraphs_props(3) by (intro split_join) auto
  moreover have "map trim ?us = ?us"
    using uniqueParagraphs_props(2) by (simp add: map_idI)
  moreover have "filter (\<lambda>p. p \<noteq> []) ?us = ?us"
    using uniqueParagraphs_props(1) by (auto intro: filter_True)
  ultimately have "uniqueParagraphs (join LF ?us) = new_Set ?us"
    by (simp add: uniqueParagraphs_def)
  also have "\<dots> = ?us"
    by (simp add: new_Set_keep_first keep_first_distinct uniqueParagraphs_distinct)
  finally show ?thesis .
qed

text \<open>
  C7 at the content " A", "A", "", "B", line by line.
\<close>

theorem unit_derivation_idempotent_witness:
  "uniqueParagraphs (join LF (uniqueParagraphs [0x20, 0x41, 0x0A, 0x41, 0x0A, 0x0A, 0x42]))
     = [[0x41], [0x42]]"
  using unit_derivation_idempotent [of "[0x20, 0x41, 0x0A, 0x41, 0x0A, 0x0A, 0x42]"]
  by (simp add: uniqueParagraphs_def new_Set_def set_add_def trim_def is_ws_def LF_def)

text \<open>
  C8, as amended: when the chat request of EventSearch is rejected (\<open>fetch\<close> or
  \<open>chatResponse.json()\<close> rejects), one message of type system is stored whose content
  is the fixed fallback text. ChatMessage takes it through the reveal of a stored
  response: the state is emptied, the first timeout is armed over the units of the
  content, which are the fallback itself, and the paragraphs of the state are what is
  rendered; no tick ever reveals another string, and with the updaters of the session
  called at one phase the fallback is revealed. A response whose body has no message
  stores nothing, no fallback either. In ChatInterface a rejected request and a
  response that is not a success each store a fixed text as a message that is not the
  user's, rendered like a successful response.
\<close>

theorem chat_failure_fallback:
  assumes "reply = FetchRejected \<or> reply = JsonRejected"
    and "ci = CI_FetchRejected \<or> ci = CI_JsonRejected"
    and "trim (ci_input t) \<noteq> []"
    and "fb = \<lparr>msg_id = d, msg_type = System, content = chat_fallback\<rparr>"
  shows "messages (getChatResponse d reply s) = messages s @ [fb] \<and>
         visibleParagraphs (ChatMessage fb) = [] \<and>
         timers (ChatMessage fb)
           = [\<lparr>handle = 0, due = 100, captured = [chat_fallback], index = - 1\<rparr>] \<and>
         chat_render fb st = Paragraphs (visibleParagraphs st) \<and>
         set (strs (visibleParagraphs (chat_run phs (ChatMessage fb)))) \<subseteq> {chat_fallback} \<and>
         (\<exists>k. strs (visibleParagraphs (chat_ticks ph k (ChatMessage fb))) = [chat_fallback]) \<and>
         (msg \<noteq> [] \<longrightarrow>
            messages (getChatResponse d (ChatData (Some msg)) s)
              = messages s @ [\<lparr>msg_id = d, msg_type = System, content = replace_HH msg\<rparr>] \<and>
            timers (ChatMessage \<lparr>msg_id = d, msg_type = System, content = replace_HH msg\<rparr>)
              = [\<lparr>handle = 0, due = 100, captured = uniqueParagraphs (replace_HH msg),
                  index = - 1\<rparr>] \<and>
            chat_render \<lparr>msg_id = d, msg_type = System, content = replace_HH msg\<rparr> st
              = Paragraphs (visibleParagraphs st)) \<and>
         messages (getChatResponse d (ChatData None) s) = messages s \<and>
         ci_messages (handleSubmit ci t)
           = ci_messages t @ [\<lparr>msg_text = ci_input t, isUser = True\<rparr>,
                              \<lparr>msg_text = ci_error_catch, isUser = False\<rparr>] \<and>
         ci_messages (handleSubmit (CI_Data False response) t)
           = ci_messages t @ [\<lparr>msg_text = ci_input t, isUser = True\<rparr>,
                              \<lparr>msg_text = ci_error_status, isUser = False\<rparr>] \<and>
         ci_messages (handleSubmit (CI_Data True response) t)
           = ci_messages t @ [\<lparr>msg_text = ci_input t, isUser = True\<rparr>,
                              \<lparr>msg_text = response, isUser = False\<rparr>] \<and>
         ci_render \<lparr>msg_text = x, isUser = False\<rparr> = (False, split LF x)"
proof -
  have sys: "msg_type fb \<noteq> User" and cf: "content fb = chat_fallback" by (simp_all add: assms(4))
  from assms(1) have 1: "messages (getChatResponse d reply s) = messages s @ [fb]"
    by (auto simp: getChatResponse_def assms(4))
  have 2: "visibleParagraphs (ChatMessage fb) = []"
    "timers (ChatMessage fb) = [\<lparr>handle = 0, due = 100, captured = [chat_fallback], index = - 1\<rparr>]"
    using system_message_mount[OF sys] by (simp_all add: cf fallback_unit)
  have 3: "chat_render fb st = Paragraphs (visibleParagraphs st)"
    by (simp add: chat_render_def assms(4))
  have cm: "ChatMessage fb = chat_mount chat_fallback False"
    by (simp add: ChatMessage_def assms(4))
  have 4: "set (strs (visibleParagraphs (chat_run phs (ChatMessage fb)))) \<subseteq> {chat_fallback}"
    using in_session_strs[OF in_session_chat_run[OF in_session_chat_mount[of chat_fallback], of phs]]
    unfolding cm by (fastforce simp: fallback_unit)
  have "strs (visibleParagraphs (chat_ticks ph 2 (ChatMessage fb))) = [chat_fallback]"
    unfolding cm chat_session_visible strs_take_appended fallback_unit by (cases ph) simp_all
  then have 5: "\<exists>k. strs (visibleParagraphs (chat_ticks ph k (ChatMessage fb))) = [chat_fallback]" ..
  have 6: "msg \<noteq> [] \<longrightarrow>
            messages (getChatResponse d (ChatData (Some msg)) s)
              = messages s @ [\<lparr>msg_id = d, msg_type = System, content = replace_HH msg\<rparr>] \<and>
            timers (ChatMessage \<lparr>msg_id = d, msg_type = System, content = replace_HH msg\<rparr>)
              = [\<lparr>handle = 0, due = 100, captured = uniqueParagraphs (replace_HH msg),
                  index = - 1\<rparr>] \<and>
            chat_render \<lparr>msg_id = d, msg_type = System, content = replace_HH msg\<rparr> st
              = Paragraphs (visibleParagraphs st)"
    using system_message_mount[of "\<lparr>msg_id = d, msg_type = System, content = replace_HH msg\<rparr>"]
    by (simp add: getChatResponse_def chat_render_def)
  have 7: "messages (getChatResponse d (ChatData None) s) = messages s"
    by (simp add: getChatResponse_def)
  from assms(2,3) have 8: "ci_messages (handleSubmit ci t)
           = ci_messages t @ [\<lparr>msg_text = ci_input t, isUser = True\<rparr>,
                              \<lparr>msg_text = ci_error_catch, isUser = False\<rparr>]"
    by (auto simp: handleSubmit_def)
  from assms(3) have 9: "ci_messages (handleSubmit (CI_Data False response) t)
           = ci_messages t @ [\<lparr>msg_text = ci_input t, isUser = True\<rparr>,
                              \<lparr>msg_text = ci_error_status, isUser = False\<rparr>]"
    "ci_messages (handleSubmit (CI_Data True response) t)
           = ci_messages t @ [\<lparr>msg_text = ci_input t, isUser = True\<rparr>,
                              \<lparr>msg_text = response, isUser = False\<rparr>]"
    by (simp_all add: handleSubmit_def)
  have 10: "ci_render \<lparr>msg_text = x, isUser = False\<rparr> = (False, split LF x)"
    by (simp add: ci_render_def)
  from 1 2 3 4 5 6 7 8 9 10 show ?thesis by blast
qed

text \<open>
  C8, the amended claim at a rejected \<open>fetch\<close> and a rejected \<open>json()\<close>, with no
  message stored before, and at the input "A" of ChatInterface.
\<close>

theorem chat_failure_fallback_witness:
  "messages (getChatResponse 7 FetchRejected \<lparr>messages = [], isLoadingChat = True\<rparr>)
     = [\<lparr>msg_id = 7, msg_type = System, content = chat_fallback\<rparr>] \<and>
   messages (getChatResponse 7 JsonRejected \<lparr>messages = [], isLoadingChat = True\<rparr>)
     = [\<lparr>msg_id = 7, msg_type = System, content = chat_fallback\<rparr>] \<and>
   timers (ChatMessage \<lparr>msg_id = 7, msg_type = System, content = chat_fallback\<rparr>)
     = [\<lparr>handle = 0, due = 100, captured = [chat_fallback], index = - 1\<rparr>] \<and>
   ci_messages (handleSubmit CI_FetchRejected \<lparr>ci_messages = [], ci_input = [0x41]\<rparr>)
     = [\<lparr>msg_text = [0x41], isUser = True\<rparr>, \<lparr>msg_text = ci_error_catch, isUser = False\<rparr>]"
proof -
  have t: "trim (ci_input \<lparr>ci_messages = [], ci_input = [0x41]\<rparr>) \<noteq> []"
    by (simp add: trim_def is_ws_def)
  from chat_failure_fallback[of FetchRejected CI_FetchRejected
         "\<lparr>ci_messages = [], ci_input = [0x41]\<rparr>" _ 7 "\<lparr>messages = [], isLoadingChat = True\<rparr>",
         OF _ _ t refl]
       chat_failure_fallback[of JsonRejected CI_JsonRejected
         "\<lparr>ci_messages = [], ci_input = [0x41]\<rparr>" _ 7 "\<lparr>messages = [], isLoadingChat = True\<rparr>",
         OF _ _ t refl]
  show ?thesis by simp
qed

text \<open>
  C8, as stated, fails for a chat request that the backend answers without a message
  (an error object, say): EventSearch stores no message, and no fallback is shown.
\<close>

theorem response_without_message_stores_nothing:
  "messages (getChatResponse 7 (ChatData None) \<lparr>messages = [], isLoadingChat = True\<rparr>) = []"
  by (simp add: getChatResponse_def)

text \<open>
  C9: a chat response with a message that is not empty is stored as a system message
  whose content is the message without the positions that lie in a run of two or
  more \<open>H\<close>; when no position lies in such a run, the content is the message.
\<close>

theorem stored_response_without_H_runs:
  assumes "msg \<noteq> []"
  shows "messages (getChatResponse d (ChatData (Some msg)) s)
           = messages s @ [\<lparr>msg_id = d, msg_type = System, content = without_H_runs msg\<rparr>] \<and>
         ((\<forall>i<length msg. \<not> in_H_run msg i) \<longrightarrow>
            messages (getChatResponse d (ChatData (Some msg)) s)
              = messages s @ [\<lparr>msg_id = d, msg_type = System, content = msg\<rparr>])"
  using assms by (auto simp: getChatResponse_def replace_HH_spec without_H_runs_id)

text \<open>
  C9 at the messages "HHHaHi" (stored as "aHi") and "HiH" (stored as it is).
\<close>

theorem stored_response_without_H_runs_witness:
  "messages (getChatResponse 7 (ChatData (Some [0x48, 0x48, 0x48, 0x61, 0x48, 0x69]))
       \<lparr>messages = [], isLoadingChat = True\<rparr>)
     = [\<lparr>msg_id = 7, msg_type = System, content = [0x61, 0x48, 0x69]\<rparr>] \<and>
   messages (getChatResponse 7 (ChatData (Some [0x48, 0x69, 0x48]))
       \<lparr>messages = [], isLoadingChat = True\<rparr>)
     = [\<lparr>msg_id = 7, msg_type = System, content = [0x48, 0x69, 0x48]\<rparr>]"
proof -
  have a: "[0x48, 0x48, 0x48, 0x61, 0x48, 0x69] \<noteq> ([] :: jsstring)" by simp
  have b: "[0x48, 0x69, 0x48] \<noteq> ([] :: jsstring)" by simp
  have w: "without_H_runs [0x48, 0x48, 0x48, 0x61, 0x48, 0x69] = [0x61, 0x48, 0x69]"
    by (simp add: without_H_runs_def in_H_run_def chr_H_def upt_rec)
  have n: "\<forall>i<length [0x48, 0x69, 0x48 :: jschar]. \<not> in_H_run [0x48, 0x69, 0x48] i"
  proof (intro allI impI)
    fix i :: nat
    assume "i < length [0x48, 0x69, 0x48 :: jschar]"
    then have "i = 0 \<or> i = 1 \<or> i = 2" by auto
    then show "\<not> in_H_run [0x48, 0x69, 0x48] i"
      by (auto simp: in_H_run_def chr_H_def)
  qed
  have 1: "messages (getChatResponse 7 (ChatData (Some [0x48, 0x48, 0x48, 0x61, 0x48, 0x69]))
       \<lparr>messages = [], isLoadingChat = True\<rparr>)
     = [\<lparr>msg_id = 7, msg_type = System, content = [0x61, 0x48, 0x69]\<rparr>]"
    using stored_response_without_H_runs[OF a, of 7 "\<lparr>messages = [], isLoadingChat = True\<rparr>",
        THEN conjunct1] w by simp
  have 2: "messages (getChatResponse 7 (ChatData (Some [0x48, 0x69, 0x48]))
       \<lparr>messages = [], isLoadingChat = True\<rparr>)
     = [\<lparr>msg_id = 7, msg_type = System, content = [0x48, 0x69, 0x48]\<rparr>]"
    using stored_response_without_H_runs[OF b, of 7 "\<lparr>messages = [], isLoadingChat = True\<rparr>",
        THEN conjunct2, THEN mp, OF n] by simp
  from 1 2 show ?thesis by (rule conjI)
qed

text \<open>
  C10, as amended: for a user message what is rendered is the content itself, in
  full, from the mount on and after any ticks; the effect puts all units in the state
  at once, which is not rendered, arms no timer, and no tick changes the component.
  For any other message the paragraphs of the state are rendered; the effect empties
  the state and arms the first timeout, and every tick appends at most one element.
\<close>

theorem user_message_content_shown:
  "(msg_type m = User \<longrightarrow>
      chat_render m (chat_run phs (ChatMessage m)) = Content (content m) \<and>
      visibleParagraphs (ChatMessage m) = map Str (uniqueParagraphs (content m)) \<and>
      timers (ChatMessage m) = [] \<and>
      chat_run phs (ChatMessage m) = ChatMessage m) \<and>
   (msg_type m \<noteq> User \<longrightarrow>
      chat_render m st = Paragraphs (visibleParagraphs st) \<and>
      visibleParagraphs (ChatMessage m) = [] \<and>
      timers (ChatMessage m)
        = [\<lparr>handle = 0, due = 100, captured = uniqueParagraphs (content m), index = - 1\<rparr>]) \<and>
   (visibleParagraphs (chat_tick ph st) = visibleParagraphs st \<or>
    (\<exists>v. visibleParagraphs (chat_tick ph st) = visibleParagraphs st @ [v])) \<and>
   visibleParagraphs (chat_effect c True st) = map Str (uniqueParagraphs c) \<and>
   timers (chat_effect c True st) = timers st"
proof -
  have u: "msg_type m = User \<longrightarrow>
      chat_render m (chat_run phs (ChatMessage m)) = Content (content m) \<and>
      visibleParagraphs (ChatMessage m) = map Str (uniqueParagraphs (content m)) \<and>
      timers (ChatMessage m) = [] \<and>
      chat_run phs (ChatMessage m) = ChatMessage m"
    using user_message_mount[of m] chat_run_idle[of "ChatMessage m" phs]
    by (simp add: chat_render_def)
  have n: "msg_type m \<noteq> User \<longrightarrow>
      chat_render m st = Paragraphs (visibleParagraphs st) \<and>
      visibleParagraphs (ChatMessage m) = [] \<and>
      timers (ChatMessage m)
        = [\<lparr>handle = 0, due = 100, captured = uniqueParagraphs (content m), index = - 1\<rparr>]"
    using system_message_mount[of m] by (simp add: chat_render_def)
  have e: "visibleParagraphs (chat_effect c True st) = map Str (uniqueParagraphs c)"
    "timers (chat_effect c True st) = timers st"
    by (simp_all add: chat_effect_def)
  from u n e chat_tick_appends[of ph st] show ?thesis by blast
qed

text \<open>
  C10, the amended claim at the content "A", "A", "B", line by line, as a user message
  and as a system message.
\<close>

theorem user_message_content_shown_witness:
  "chat_render \<lparr>msg_id = 1, msg_type = User, content = [0x41, 0x0A, 0x41, 0x0A, 0x42]\<rparr>
     (chat_run [AtRender, AtDispatch]
        (ChatMessage \<lparr>msg_id = 1, msg_type = User, content = [0x41, 0x0A, 0x41, 0x0A, 0x42]\<rparr>))
     = Content [0x41, 0x0A, 0x41, 0x0A, 0x42] \<and>
   timers (ChatMessage \<lparr>msg_id = 1, msg_type = User, content = [0x41, 0x0A, 0x41, 0x0A, 0x42]\<rparr>) = [] \<and>
   timers (ChatMessage \<lparr>msg_id = 2, msg_type = System, content = [0x41, 0x0A, 0x41, 0x0A, 0x42]\<rparr>)
     = [\<lparr>handle = 0, due = 100, captured = [[0x41], [0x42]], index = - 1\<rparr>]"
proof -
  have u: "uniqueParagraphs [0x41, 0x0A, 0x41, 0x0A, 0x42] = [[0x41], [0x42]]"
    by (simp add: unit_defs)
  let ?m1 = "\<lparr>msg_id = 1, msg_type = User, content = [0x41, 0x0A, 0x41, 0x0A, 0x42]\<rparr>"
  let ?m2 = "\<lparr>msg_id = 2, msg_type = System, content = [0x41, 0x0A, 0x41, 0x0A, 0x42]\<rparr>"
  have a: "msg_type ?m1 = User" and b: "msg_type ?m2 \<noteq> User" by simp_all
  have c1: "content ?m1 = [0x41, 0x0A, 0x41, 0x0A, 0x42]"
    and c2: "content ?m2 = [0x41, 0x0A, 0x41, 0x0A, 0x42]" by simp_all
  note 1 = user_message_content_shown[of ?m1 "[AtRender, AtDispatch]", THEN conjunct1,
      THEN mp, OF a]
  note 2 = user_message_content_shown[of ?m2, THEN conjunct2, THEN conjunct1, THEN mp, OF b]
  from 1 have "chat_render ?m1 (chat_run [AtRender, AtDispatch] (ChatMessage ?m1))
      = Content [0x41, 0x0A, 0x41, 0x0A, 0x42]" and "timers (ChatMessage ?m1) = []"
    unfolding c1 by blast+
  moreover from 2 have "timers (ChatMessage ?m2)
     = [\<lparr>handle = 0, due = 100, captured = [[0x41], [0x42]], index = - 1\<rparr>]"
    unfolding c2 u by blast
  ultimately show ?thesis by blast
qed

text \<open>
  C10, as stated, fails: for the user message "A", line feed, "A" what is rendered is
  the content with both lines, not the one deduplicated unit.
\<close>

theorem user_message_shows_raw_content:
  "chat_render \<lparr>msg_id = 1, msg_type = User, content = [0x41, 0x0A, 0x41]\<rparr>
     (ChatMessage \<lparr>msg_id = 1, msg_type = User, content = [0x41, 0x0A, 0x41]\<rparr>)
     = Content [0x41, 0x0A, 0x41] \<and>
   uniqueParagraphs [0x41, 0x0A, 0x41] = [[0x41]] \<and>
   chat_render \<lparr>msg_id = 1, msg_type = User, content = [0x41, 0x0A, 0x41]\<rparr>
     (ChatMessage \<lparr>msg_id = 1, msg_type = User, content = [0x41, 0x0A, 0x41]\<rparr>)
     \<noteq> Paragraphs (map Str (uniqueParagraphs [0x41, 0x0A, 0x41]))"
  by (simp add: chat_render_def unit_defs)

end
